theory Spec2Isabelle
  imports Main "HOL-Library.Multiset" "HOL-Library.Sublist"
begin

unbundle bit_operations_syntax

section \<open>Errors\<close>

text \<open>
  The Python source defines no exception classes of its own; every failure is one of the
  interpreter's built-in exceptions. \<open>IndexError\<close> is raised by \<open>bits.pop(0)\<close> on an
  empty list and by \<open>trees[0]\<close> on an empty list, \<open>ValueError\<close> by \<open>int(c)\<close> on a
  character that is not a decimal digit, \<open>KeyError\<close> by a dictionary lookup of a missing key.
\<close>

datatype error = IndexError | ValueError | KeyError

section \<open>Bit-sequence utilities\<close>

text \<open>
  \<open>int_to_bit_list\<close> loops \<open>while n: bits.append(bool(n & 1)); n >>= 1\<close>. Symbols are
  run lengths and counts of bits, that is natural numbers.
\<close>

function int_to_bit_list :: "nat \<Rightarrow> bool list" where
  "int_to_bit_list n = (if n = 0 then [] else (n AND 1 \<noteq> 0) # int_to_bit_list (drop_bit 1 n))"
  by pat_completeness auto
termination
  by (relation "measure (\<lambda>n. n)") (auto simp: drop_bit_eq_div)

declare int_to_bit_list.simps [simp del]

text \<open>\<open>bit_list_to_int\<close> is \<open>sum(2**i * b for i, b in enumerate(bits))\<close>.\<close>

definition bit_list_to_int :: "bool list \<Rightarrow> nat" where
  "bit_list_to_int bits = sum_list (map (\<lambda>(i, b). 2 ^ i * (if b then 1 else 0)) (enumerate 0 bits))"

section \<open>Huffman code trees\<close>

text \<open>
  A leaf stores \<open>count\<close> and \<open>symbol\<close>; a non-leaf stores \<open>count\<close>, \<open>left\<close> and
  \<open>right\<close>. The count is \<open>None\<close> in a tree that was parsed from bits.
\<close>

datatype HuffmanCodeTree =
    Leaf (node_count: "nat option") (symbol: nat)
  | NonLeaf (node_count: "nat option") (left: HuffmanCodeTree) (right: HuffmanCodeTree)

text \<open>The constructor of \<open>HuffmanCodeNonLeaf\<close> computes the count from the children.\<close>

definition HuffmanCodeNonLeaf :: "HuffmanCodeTree \<Rightarrow> HuffmanCodeTree \<Rightarrow> HuffmanCodeTree" where
  "HuffmanCodeNonLeaf l r =
     NonLeaf (case (node_count l, node_count r) of
                (Some a, Some b) \<Rightarrow> Some (a + b)
              | _ \<Rightarrow> None) l r"

fun serialize :: "HuffmanCodeTree \<Rightarrow> bool list" where
  "serialize (Leaf c s) =
     [True] @ replicate (length (int_to_bit_list s)) False @ [True] @ int_to_bit_list s"
| "serialize (NonLeaf c l r) = [False] @ serialize l @ serialize r"

text \<open>
  The loop \<open>while not bits.pop(0): symbol_len += 1\<close> of \<open>parse_leaf\<close>: it returns the
  number of zeros read and the bits after the terminating one.
\<close>

fun parse_symbol_len :: "bool list \<Rightarrow> nat \<Rightarrow> error + (nat \<times> bool list)" where
  "parse_symbol_len [] symbol_len = Inl IndexError"
| "parse_symbol_len (b # bits) symbol_len =
     (if \<not> b then parse_symbol_len bits (symbol_len + 1) else Inr (symbol_len, bits))"

text \<open>
  The slice \<open>bits[:symbol_len]\<close> and \<open>del bits[:symbol_len]\<close> do not raise when fewer
  than \<open>symbol_len\<close> bits are left: \<open>take\<close> and \<open>drop\<close> behave the same way.
\<close>

definition parse_leaf :: "bool list \<Rightarrow> error + (HuffmanCodeTree \<times> bool list)" where
  "parse_leaf bits =
     (case parse_symbol_len bits 0 of
        Inl e \<Rightarrow> Inl e
      | Inr (symbol_len, bits') \<Rightarrow>
          Inr (Leaf None (bit_list_to_int (take symbol_len bits')), drop symbol_len bits'))"

function parse :: "bool list \<Rightarrow> error + (HuffmanCodeTree \<times> bool list)" where
  "parse [] = Inl IndexError"
| "parse (True # bits) = parse_leaf bits"
| "parse (False # bits) =
     (case parse bits of
        Inl e \<Rightarrow> Inl e
      | Inr (l, bits') \<Rightarrow>
          (case parse bits' of
             Inl e \<Rightarrow> Inl e
           | Inr (r, bits'') \<Rightarrow> Inr (HuffmanCodeNonLeaf l r, bits'')))"
  by pat_completeness auto

lemma parse_symbol_len_length:
  "parse_symbol_len bits n = Inr (k, rest) \<Longrightarrow> length rest < length bits"
  by (induction bits n rule: parse_symbol_len.induct) (auto split: if_splits)

lemma parse_leaf_length:
  "parse_leaf bits = Inr (t, rest) \<Longrightarrow> length rest < length bits"
  by (auto simp: parse_leaf_def split: sum.splits dest: parse_symbol_len_length)

lemma parse_dom_length:
  "parse_dom bits \<Longrightarrow> parse bits = Inr (t, rest) \<Longrightarrow> length rest < length bits"
proof (induction bits arbitrary: t rest rule: parse.pinduct)
  case 1
  then show ?case by (simp add: parse.psimps)
next
  case (2 bits)
  then show ?case by (auto simp: parse.psimps dest: parse_leaf_length)
next
  case (3 bits)
  from "3.prems" "3.hyps" obtain l b1 r where
    l: "parse bits = Inr (l, b1)" and r: "parse b1 = Inr (r, rest)"
    by (auto simp: parse.psimps split: sum.splits)
  from "3.IH"(1) [OF l] have "length b1 < length bits" .
  moreover from "3.IH"(2) [OF l refl r] have "length rest < length b1" .
  ultimately show ?case by simp
qed

termination parse
proof (relation "measure length")
  show "wf (measure length)" by simp
next
  fix bits
  show "(bits, False # bits) \<in> measure length" by simp
next
  fix bits :: "bool list" and x2 x y
  assume "parse bits = Inr x2" "(x, y) = x2" "parse_dom bits"
  then show "(y, False # bits) \<in> measure length"
    using parse_dom_length [of bits x y] by auto
qed


text \<open>
  \<open>symbol_prefix_map_helper\<close> writes into the dictionary \<open>result\<close> that
  \<open>symbol_prefix_map\<close> created; the model returns the updated dictionary.
\<close>

fun symbol_prefix_map_helper ::
  "HuffmanCodeTree \<Rightarrow> bool list \<Rightarrow> (nat \<rightharpoonup> bool list) \<Rightarrow> (nat \<rightharpoonup> bool list)" where
  "symbol_prefix_map_helper (Leaf c s) pfx result = result(s \<mapsto> pfx)"
| "symbol_prefix_map_helper (NonLeaf c l r) pfx result =
     symbol_prefix_map_helper r (pfx @ [True])
       (symbol_prefix_map_helper l (pfx @ [False]) result)"

definition symbol_prefix_map :: "HuffmanCodeTree \<Rightarrow> (nat \<rightharpoonup> bool list)" where
  "symbol_prefix_map t = symbol_prefix_map_helper t [] Map.empty"

section \<open>The heap of subtrees\<close>

text \<open>
  \<open>__lt__\<close> compares the counts. Python raises a TypeError when a count is \<open>None\<close>;
  \<open>for_symbols\<close> only compares trees it has built itself, whose counts are all known
  (lemma \<open>merge_loop_known\<close> below), so the model answers \<open>False\<close> there.
\<close>

definition lt :: "HuffmanCodeTree \<Rightarrow> HuffmanCodeTree \<Rightarrow> bool" where
  "lt self other =
     (case (node_count self, node_count other) of
        (Some a, Some b) \<Rightarrow> a < b
      | _ \<Rightarrow> False)"

text \<open>
  The functions of Python's \<open>heapq\<close> module that \<open>for_symbols\<close> calls, on a list of
  trees ordered by \<open>lt\<close>. \<open>heapq\<close> reads and writes the list by index, and only at
  positions below its length.

  \<open>_siftdown(heap, startpos, pos)\<close>: the loop returns the list and the final \<open>pos\<close>.
\<close>

function siftdown_loop ::
  "HuffmanCodeTree list \<Rightarrow> nat \<Rightarrow> HuffmanCodeTree \<Rightarrow> nat \<Rightarrow> HuffmanCodeTree list \<times> nat" where
  "siftdown_loop heap startpos newitem pos =
     (if pos > startpos then
        (let parentpos = drop_bit 1 (pos - 1);
             parent = heap ! parentpos
         in if lt newitem parent
            then siftdown_loop (heap[pos := parent]) startpos newitem parentpos
            else (heap, pos))
      else (heap, pos))"
  by pat_completeness auto
termination
  by (relation "measure (\<lambda>(heap, startpos, newitem, pos). pos)")
     (auto simp: drop_bit_eq_div)

declare siftdown_loop.simps [simp del]

definition siftdown :: "HuffmanCodeTree list \<Rightarrow> nat \<Rightarrow> nat \<Rightarrow> HuffmanCodeTree list" where
  "siftdown heap startpos pos =
     (let newitem = heap ! pos;
          (heap', pos') = siftdown_loop heap startpos newitem pos
      in heap'[pos' := newitem])"

text \<open>\<open>_siftup(heap, pos)\<close>: the loop moves the smaller child up until a leaf position.\<close>

function siftup_loop ::
  "HuffmanCodeTree list \<Rightarrow> nat \<Rightarrow> nat \<Rightarrow> nat \<Rightarrow> HuffmanCodeTree list \<times> nat" where
  "siftup_loop heap endpos pos childpos =
     (if childpos < endpos then
        (let rightpos = childpos + 1;
             childpos' = (if rightpos < endpos \<and> \<not> lt (heap ! childpos) (heap ! rightpos)
                          then rightpos else childpos)
         in siftup_loop (heap[pos := heap ! childpos']) endpos childpos' (2 * childpos' + 1))
      else (heap, pos))"
  by pat_completeness auto
termination
  by (relation "measure (\<lambda>(heap, endpos, pos, childpos). endpos - childpos)") auto

declare siftup_loop.simps [simp del]

definition siftup :: "HuffmanCodeTree list \<Rightarrow> nat \<Rightarrow> HuffmanCodeTree list" where
  "siftup heap pos =
     (let endpos = length heap;
          startpos = pos;
          newitem = heap ! pos;
          (heap', pos') = siftup_loop heap endpos pos (2 * pos + 1)
      in siftdown (heap'[pos' := newitem]) startpos pos')"

text \<open>\<open>heapify(x)\<close>: \<open>for i in reversed(range(n//2)): _siftup(x, i)\<close>.\<close>

definition heapify :: "HuffmanCodeTree list \<Rightarrow> HuffmanCodeTree list" where
  "heapify x = fold (\<lambda>i heap. siftup heap i) (rev [0 ..< length x div 2]) x"

text \<open>\<open>heappop(heap)\<close>: \<open>heap.pop()\<close> raises IndexError on the empty list.\<close>

definition heappop ::
  "HuffmanCodeTree list \<Rightarrow> error + (HuffmanCodeTree \<times> HuffmanCodeTree list)" where
  "heappop heap =
     (if heap = [] then Inl IndexError
      else (let lastelt = last heap;
                heap' = butlast heap
            in if heap' \<noteq> []
               then Inr (heap' ! 0, siftup (heap'[0 := lastelt]) 0)
               else Inr (lastelt, heap')))"

text \<open>\<open>heappush(heap, item)\<close>: append, then \<open>_siftdown(heap, 0, len(heap)-1)\<close>.\<close>

definition heappush :: "HuffmanCodeTree list \<Rightarrow> HuffmanCodeTree \<Rightarrow> HuffmanCodeTree list" where
  "heappush heap item = siftdown (heap @ [item]) 0 (length (heap @ [item]) - 1)"

lemma siftdown_loop_length:
  "siftdown_loop heap startpos newitem pos = (heap', pos') \<Longrightarrow> length heap' = length heap"
proof (induction heap startpos newitem pos rule: siftdown_loop.induct)
  case (1 heap startpos newitem pos)
  then show ?case
    by (subst (asm) (2) siftdown_loop.simps) (auto simp: Let_def split: if_splits)
qed

lemma siftdown_length [simp]: "length (siftdown heap startpos pos) = length heap"
  by (auto simp: siftdown_def Let_def split: prod.splits dest: siftdown_loop_length)

lemma siftup_loop_length:
  "siftup_loop heap endpos pos childpos = (heap', pos') \<Longrightarrow> length heap' = length heap"
proof (induction heap endpos pos childpos rule: siftup_loop.induct)
  case (1 heap endpos pos childpos)
  then show ?case
    by (subst (asm) (2) siftup_loop.simps) (auto simp: Let_def split: if_splits)
qed

lemma siftup_length [simp]: "length (siftup heap pos) = length heap"
  by (auto simp: siftup_def Let_def split: prod.splits dest: siftup_loop_length)

lemma heappop_length:
  "heappop heap = Inr (item, heap') \<Longrightarrow> Suc (length heap') = length heap"
  by (cases heap rule: rev_cases) (auto simp: heappop_def Let_def split: if_splits)

lemma heappush_length [simp]: "length (heappush heap item) = Suc (length heap)"
  by (simp add: heappush_def)

section \<open>Building the tree\<close>

text \<open>
  \<open>collections.Counter(symbols).items()\<close>: the pairs of a symbol and its number of
  occurrences, in the order in which the symbols first occur (a Python dictionary keeps
  insertion order). \<open>counter_add\<close> is \<open>counts[elem] = counts.get(elem, 0) + 1\<close>.
\<close>

fun counter_add :: "(nat \<times> nat) list \<Rightarrow> nat \<Rightarrow> (nat \<times> nat) list" where
  "counter_add [] elem = [(elem, 1)]"
| "counter_add ((k, c) # items) elem =
     (if k = elem then (k, c + 1) # items else (k, c) # counter_add items elem)"

definition Counter_items :: "nat list \<Rightarrow> (nat \<times> nat) list" where
  "Counter_items symbols = foldl counter_add [] symbols"

text \<open>The loop \<open>while len(trees) > 1\<close> of \<open>for_symbols\<close>.\<close>

function merge_loop :: "HuffmanCodeTree list \<Rightarrow> error + HuffmanCodeTree list" where
  "merge_loop trees =
     (if length trees > 1 then
        (case heappop trees of
           Inl e \<Rightarrow> Inl e
         | Inr (l, trees1) \<Rightarrow>
             (case heappop trees1 of
                Inl e \<Rightarrow> Inl e
              | Inr (r, trees2) \<Rightarrow> merge_loop (heappush trees2 (HuffmanCodeNonLeaf l r))))
      else Inr trees)"
  by pat_completeness auto
termination
  by (relation "measure length") (auto dest!: heappop_length)

declare merge_loop.simps [simp del]

text \<open>\<open>trees[0]\<close> raises IndexError when the list is empty.\<close>

definition for_symbols :: "nat list \<Rightarrow> error + HuffmanCodeTree" where
  "for_symbols symbols =
     (let counts = Counter_items symbols;
          trees = map (\<lambda>(symbol, count). Leaf (Some count) symbol) counts
      in case merge_loop (heapify trees) of
           Inl e \<Rightarrow> Inl e
         | Inr trees' \<Rightarrow> (case trees' of [] \<Rightarrow> Inl IndexError | t # _ \<Rightarrow> Inr t))"

section \<open>The codec\<close>

text \<open>
  \<open>for symbol in symbols: bits += symbol_prefix_map[symbol]\<close>; the lookup of a symbol
  that is not a key raises KeyError.
\<close>

fun append_codes :: "(nat \<rightharpoonup> bool list) \<Rightarrow> nat list \<Rightarrow> bool list \<Rightarrow> error + bool list" where
  "append_codes m [] bits = Inr bits"
| "append_codes m (s # symbols) bits =
     (case m s of
        None \<Rightarrow> Inl KeyError
      | Some code \<Rightarrow> append_codes m symbols (bits @ code))"

definition huffman_compress :: "nat list \<Rightarrow> error + bool list" where
  "huffman_compress symbols =
     (case for_symbols symbols of
        Inl e \<Rightarrow> Inl e
      | Inr code_tree \<Rightarrow>
          append_codes (symbol_prefix_map code_tree) symbols (serialize code_tree))"

text \<open>
  The inner loop of \<open>huffman_decompress\<close>: \<open>while isinstance(node, HuffmanCodeNonLeaf)\<close>
  pops one bit and descends; \<open>bits.pop(0)\<close> raises IndexError on the empty list.
\<close>

fun descend :: "HuffmanCodeTree \<Rightarrow> bool list \<Rightarrow> error + (HuffmanCodeTree \<times> bool list)" where
  "descend (Leaf c s) bits = Inr (Leaf c s, bits)"
| "descend (NonLeaf c l r) [] = Inl IndexError"
| "descend (NonLeaf c l r) (branch # bits) = descend ([l, r] ! (if branch then 1 else 0)) bits"

text \<open>
  The outer loop \<open>while bits\<close> need not end (a root that is a leaf consumes no bit), so
  the model is a partial function: \<open>None\<close> is a run that never returns.
\<close>

partial_function (option) decode_loop ::
  "HuffmanCodeTree \<Rightarrow> bool list \<Rightarrow> nat list \<Rightarrow> (error + nat list) option" where
  "decode_loop code_tree bits symbols =
     (if bits \<noteq> [] then
        (case descend code_tree bits of
           Inl e \<Rightarrow> Some (Inl e)
         | Inr (node, bits') \<Rightarrow> decode_loop code_tree bits' (symbols @ [symbol node]))
      else Some (Inr symbols))"

declare decode_loop.simps [code]

definition huffman_decompress :: "bool list \<Rightarrow> (error + nat list) option" where
  "huffman_decompress bits =
     (case parse bits of
        Inl e \<Rightarrow> Some (Inl e)
      | Inr (code_tree, bits') \<Rightarrow> decode_loop code_tree bits' [])"

section \<open>Liveness masks\<close>

text \<open>
  A Python string is a sequence of Unicode code points; the model takes a character as
  its code point and a string as the list of its code points. \<open>py_str\<close> gives the
  string of an ASCII literal.
\<close>

type_synonym py_string = "nat list"

definition py_str :: "string \<Rightarrow> py_string" where
  "py_str s = map of_char s"

text \<open>
  A mask is the list of booleans in the field \<open>mask\<close>. \<open>__repr__\<close> renders each bit as
  \<open>str(int(bit))\<close>.
\<close>

type_synonym LivenessMask = "bool list"

definition repr :: "LivenessMask \<Rightarrow> py_string" where
  "repr msk = map (\<lambda>b. if b then of_char CHR ''1'' else of_char CHR ''0'') msk"

text \<open>
  Python's \<open>int(c)\<close> on a string of one character accepts every Unicode decimal digit
  (general category Nd), ASCII or not, and returns its value; it raises ValueError on
  any other character. The decimal digits come in runs of ten consecutive code points,
  from the digit zero to the digit nine of a script; \<open>decimal_zeros\<close> lists the code
  points of the zero digits (Unicode 14.0, the character database of CPython 3.11), and
  \<open>decimal\<close> is \<open>unicodedata.decimal\<close>.
\<close>

definition decimal_zeros :: "nat list" where
  "decimal_zeros =
     [48, 1632, 1776, 1984, 2406, 2534, 2662, 2790, 2918, 3046, 3174, 3302, 3430, 3558,
      3664, 3792, 3872, 4160, 4240, 6112, 6160, 6470, 6608, 6784, 6800, 6992, 7088, 7232,
      7248, 42528, 43216, 43264, 43472, 43504, 43600, 44016, 65296, 66720, 68912, 69734,
      69872, 69942, 70096, 70384, 70736, 70864, 71248, 71360, 71472, 71904, 72016, 72784,
      73040, 73120, 92768, 92864, 93008, 120782, 120792, 120802, 120812, 120822, 123200,
      123632, 125264, 130032]"

definition decimal :: "nat \<Rightarrow> nat option" where
  "decimal c =
     (case find (\<lambda>zero. zero \<le> c \<and> c < zero + 10) decimal_zeros of
        None \<Rightarrow> None
      | Some zero \<Rightarrow> Some (c - zero))"

definition int_of_char :: "nat \<Rightarrow> error + nat" where
  "int_of_char c =
     (case decimal c of
        None \<Rightarrow> Inl ValueError
      | Some n \<Rightarrow> Inr n)"

fun from_bit_string :: "py_string \<Rightarrow> error + LivenessMask" where
  "from_bit_string [] = Inr []"
| "from_bit_string (c # bit_string) =
     (case int_of_char c of
        Inl e \<Rightarrow> Inl e
      | Inr n \<Rightarrow>
          (case from_bit_string bit_string of
             Inl e \<Rightarrow> Inl e
           | Inr msk \<Rightarrow> Inr ((n \<noteq> 0) # msk)))"

text \<open>
  \<open>s.split(sep)\<close> for a separator of one character (the result is never empty), and
  \<open>sep.join(strings)\<close>.
\<close>

fun split :: "'a list \<Rightarrow> 'a \<Rightarrow> 'a list list" where
  "split [] sep = [[]]"
| "split (c # s) sep =
     (if c = sep then [] # split s sep
      else (case split s sep of
              [] \<Rightarrow> [[c]]
            | piece # pieces \<Rightarrow> (c # piece) # pieces))"

fun join :: "'a list \<Rightarrow> 'a list list \<Rightarrow> 'a list" where
  "join sep [] = []"
| "join sep [s] = s"
| "join sep (s # ss) = s @ sep @ join sep ss"

definition to_rle :: "LivenessMask \<Rightarrow> nat list" where
  "to_rle msk = map length (split (repr msk) (of_char CHR ''1''))"

definition from_rle :: "nat list \<Rightarrow> error + LivenessMask" where
  "from_rle rle =
     from_bit_string
       (join (py_str ''1'') (map (\<lambda>zero_run. replicate zero_run (of_char CHR ''0'')) rle))"

definition compress :: "LivenessMask \<Rightarrow> error + bool list" where
  "compress msk = huffman_compress (to_rle msk)"

definition decompress :: "bool list \<Rightarrow> (error + LivenessMask) option" where
  "decompress bits =
     (case huffman_decompress bits of
        None \<Rightarrow> None
      | Some (Inl e) \<Rightarrow> Some (Inl e)
      | Some (Inr rle) \<Rightarrow> Some (from_rle rle))"


section \<open>Notions used in the statements\<close>

text \<open>The tree with every count forgotten: same shape, same symbol at every leaf.\<close>

fun forget_counts :: "HuffmanCodeTree \<Rightarrow> HuffmanCodeTree" where
  "forget_counts (Leaf c s) = Leaf None s"
| "forget_counts (NonLeaf c l r) = NonLeaf None (forget_counts l) (forget_counts r)"

text \<open>The symbols at the leaves of a tree, from left to right.\<close>

fun leaf_symbols :: "HuffmanCodeTree \<Rightarrow> nat list" where
  "leaf_symbols (Leaf c s) = [s]"
| "leaf_symbols (NonLeaf c l r) = leaf_symbols l @ leaf_symbols r"

text \<open>\<open>isinstance(node, HuffmanCodeNonLeaf)\<close>.\<close>

fun is_NonLeaf :: "HuffmanCodeTree \<Rightarrow> bool" where
  "is_NonLeaf (Leaf c s) = False"
| "is_NonLeaf (NonLeaf c l r) = True"

text \<open>All leaf symbols of the trees of a heap, with multiplicity.\<close>

definition heap_symbols :: "HuffmanCodeTree list \<Rightarrow> nat multiset" where
  "heap_symbols trees = (\<Sum>t\<in>#mset trees. mset (leaf_symbols t))"

section \<open>Bits and integers\<close>

lemma enumerate_shift_sum:
  "sum_list (map (\<lambda>(i, b). 2 ^ i * (if b then 1 else 0)) (enumerate (Suc n) bits)) =
   2 * sum_list (map (\<lambda>(i, b). 2 ^ i * (if b then 1 else (0::nat))) (enumerate n bits))"
  by (induction bits arbitrary: n) auto

lemma bit_list_to_int_Nil [simp]: "bit_list_to_int [] = 0"
  by (simp add: bit_list_to_int_def)

lemma bit_list_to_int_Cons [simp]:
  "bit_list_to_int (b # bits) = (if b then 1 else 0) + 2 * bit_list_to_int bits"
  using enumerate_shift_sum [of 0 bits] by (simp add: bit_list_to_int_def)

lemma bit_list_to_int_inverse: "bit_list_to_int (int_to_bit_list n) = n"
proof (induction n rule: int_to_bit_list.induct)
  case (1 n)
  show ?case
  proof (cases "n = 0")
    case True
    then show ?thesis by (simp add: int_to_bit_list.simps)
  next
    case False
    have "bit_list_to_int (int_to_bit_list n) =
          (if n AND 1 \<noteq> 0 then 1 else 0) + 2 * bit_list_to_int (int_to_bit_list (drop_bit 1 n))"
      using False by (subst int_to_bit_list.simps) simp
    also have "\<dots> = n mod 2 + 2 * (n div 2)"
      using "1.IH" [OF False] by (simp add: and_one_eq drop_bit_eq_div mod2_eq_if)
    finally show ?thesis by simp
  qed
qed

section \<open>Parsing a serialized tree\<close>

lemma parse_symbol_len_unary:
  "parse_symbol_len (replicate k False @ True # rest) n = Inr (n + k, rest)"
  by (induction k arbitrary: n) auto

lemma parse_leaf_serialize:
  "parse_leaf (replicate (length (int_to_bit_list s)) False @ True # int_to_bit_list s @ rest)
     = Inr (Leaf None s, rest)"
  by (simp add: parse_leaf_def parse_symbol_len_unary bit_list_to_int_inverse)

lemma HuffmanCodeNonLeaf_forget:
  "HuffmanCodeNonLeaf (forget_counts l) (forget_counts r) =
   NonLeaf None (forget_counts l) (forget_counts r)"
  by (cases l; cases r) (simp_all add: HuffmanCodeNonLeaf_def)

lemma parse_serialize_append: "parse (serialize t @ rest) = Inr (forget_counts t, rest)"
proof (induction t arbitrary: rest)
  case (Leaf c s)
  show ?case using parse_leaf_serialize [of s rest] by simp
next
  case (NonLeaf c l r)
  have "parse (serialize (NonLeaf c l r) @ rest) =
        (case parse (serialize l @ (serialize r @ rest)) of
           Inl e \<Rightarrow> Inl e
         | Inr (l', bits') \<Rightarrow>
             (case parse bits' of
                Inl e \<Rightarrow> Inl e
              | Inr (r', bits'') \<Rightarrow> Inr (HuffmanCodeNonLeaf l' r', bits'')))"
    by simp
  also have "\<dots> = Inr (HuffmanCodeNonLeaf (forget_counts l) (forget_counts r), rest)"
    by (simp add: NonLeaf.IH)
  finally show ?case by (simp add: HuffmanCodeNonLeaf_forget)
qed

text \<open>
  Claim C3. For every tree \<open>t\<close> and every trailing bit sequence \<open>rest\<close>, parsing
  \<open>serialize t\<close> followed by \<open>rest\<close> succeeds, returns the tree of the same shape with the
  same symbol at every leaf and every count unknown, and leaves exactly \<open>rest\<close>: the parser
  has consumed the bits of \<open>serialize t\<close> and no others.
\<close>

theorem C3_parse_consumes_serialized_tree:
  "parse (serialize t @ rest) = Inr (forget_counts t, rest)"
  by (rule parse_serialize_append)


section \<open>The heap operations keep the elements\<close>

lemma mset_shift:
  assumes "i < length xs" "j < length xs" "i \<noteq> j"
  shows "mset (xs[i := xs ! j, j := v]) = mset (xs[i := v])"
proof -
  have "mset ((xs[i := v])[j := (xs[i := v]) ! i, i := (xs[i := v]) ! j]) = mset (xs[i := v])"
    using assms by (intro mset_swap) simp_all
  moreover have "(xs[i := v])[j := (xs[i := v]) ! i, i := (xs[i := v]) ! j] = xs[i := xs ! j, j := v]"
    using assms by (simp add: list_update_swap [of i j])
  ultimately show ?thesis by simp
qed

lemma siftdown_loop_mset:
  "pos < length heap \<Longrightarrow> siftdown_loop heap startpos newitem pos = (heap', pos') \<Longrightarrow>
   pos' < length heap' \<and> mset (heap'[pos' := newitem]) = mset (heap[pos := newitem])"
proof (induction heap startpos newitem pos rule: siftdown_loop.induct)
  case (1 heap startpos newitem pos)
  let ?pp = "drop_bit 1 (pos - 1)"
  show ?case
  proof (cases "pos > startpos \<and> lt newitem (heap ! ?pp)")
    case True
    then have pp: "?pp < pos" by (simp add: drop_bit_eq_div) arith
    from True "1.prems"(2) have rec:
      "siftdown_loop (heap[pos := heap ! ?pp]) startpos newitem ?pp = (heap', pos')"
      by (subst (asm) siftdown_loop.simps) (simp add: Let_def)
    have "pos' < length heap' \<and>
          mset (heap'[pos' := newitem]) = mset (heap[pos := heap ! ?pp, ?pp := newitem])"
      using True pp "1.prems"(1) rec by (intro "1.IH" [OF _ refl refl]) simp_all
    moreover have "mset (heap[pos := heap ! ?pp, ?pp := newitem]) = mset (heap[pos := newitem])"
      using pp "1.prems"(1) by (intro mset_shift) simp_all
    ultimately show ?thesis by simp
  next
    case False
    with "1.prems"(2) have "heap' = heap" "pos' = pos"
      by (subst (asm) siftdown_loop.simps; auto simp: Let_def split: if_splits)+
    with "1.prems"(1) show ?thesis by simp
  qed
qed

lemma siftdown_mset: "pos < length heap \<Longrightarrow> mset (siftdown heap startpos pos) = mset heap"
  using siftdown_loop_mset [of pos heap startpos "heap ! pos"]
  by (auto simp: siftdown_def Let_def split: prod.splits)

lemma siftup_loop_mset:
  "pos < length heap \<Longrightarrow> pos < childpos \<Longrightarrow> endpos = length heap \<Longrightarrow>
   siftup_loop heap endpos pos childpos = (heap', pos') \<Longrightarrow>
   pos' < length heap' \<and> mset (heap'[pos' := newitem]) = mset (heap[pos := newitem])"
proof (induction heap endpos pos childpos rule: siftup_loop.induct)
  case (1 heap endpos pos childpos)
  let ?cp = "if childpos + 1 < endpos \<and> \<not> lt (heap ! childpos) (heap ! (childpos + 1))
             then childpos + 1 else childpos"
  show ?case
  proof (cases "childpos < endpos")
    case True
    then have cp: "?cp < endpos" "pos < ?cp" using "1.prems"(2) by auto
    from True "1.prems"(4) have rec:
      "siftup_loop (heap[pos := heap ! ?cp]) endpos ?cp (2 * ?cp + 1) = (heap', pos')"
      by (subst (asm) siftup_loop.simps) (simp only: True if_True Let_def)
    have "pos' < length heap' \<and>
          mset (heap'[pos' := newitem]) = mset (heap[pos := heap ! ?cp, ?cp := newitem])"
      using True cp "1.prems"(3) rec by (intro "1.IH" [OF True refl refl]) simp_all
    moreover have "mset (heap[pos := heap ! ?cp, ?cp := newitem]) = mset (heap[pos := newitem])"
      using cp "1.prems"(1,3) by (intro mset_shift) simp_all
    ultimately show ?thesis by simp
  next
    case False
    with "1.prems"(4) have "heap' = heap" "pos' = pos"
      by (subst (asm) siftup_loop.simps; simp)+
    with "1.prems"(1) show ?thesis by simp
  qed
qed

lemma siftup_mset:
  assumes "pos < length heap"
  shows "mset (siftup heap pos) = mset heap"
proof -
  obtain heap' pos' where l: "siftup_loop heap (length heap) pos (2 * pos + 1) = (heap', pos')"
    by (cases "siftup_loop heap (length heap) pos (2 * pos + 1)")
  from siftup_loop_mset [OF assms _ refl l, of "heap ! pos"]
  have "pos' < length heap'" "mset (heap'[pos' := heap ! pos]) = mset heap" by simp_all
  moreover have "siftup heap pos = siftdown (heap'[pos' := heap ! pos]) pos pos'"
    using l by (simp add: siftup_def)
  ultimately show ?thesis by (simp add: siftdown_mset)
qed

lemma fold_siftup_mset:
  "\<forall>i\<in>set is. i < length x \<Longrightarrow> mset (fold (\<lambda>i heap. siftup heap i) is x) = mset x"
proof (induction "is" arbitrary: x)
  case Nil
  show ?case by simp
next
  case (Cons i "is")
  have "mset (fold (\<lambda>i heap. siftup heap i) is (siftup x i)) = mset (siftup x i)"
    using Cons.prems by (intro Cons.IH) simp
  then show ?case using Cons.prems by (simp add: siftup_mset)
qed

lemma heapify_mset: "mset (heapify x) = mset x"
  unfolding heapify_def by (rule fold_siftup_mset) auto

lemma heappush_mset: "mset (heappush heap item) = add_mset item (mset heap)"
  by (simp add: heappush_def siftdown_mset)

lemma heappop_mset:
  assumes "heappop heap = Inr (item, heap')"
  shows "mset heap = add_mset item (mset heap')"
proof -
  from assms have ne: "heap \<noteq> []" by (auto simp: heappop_def)
  then obtain b z where heap: "heap = b @ [z]" by (cases heap rule: rev_cases) auto
  show ?thesis
  proof (cases "b = []")
    case True
    with assms heap show ?thesis by (simp add: heappop_def)
  next
    case False
    with assms heap have "item = b ! 0" "heap' = siftup (b[0 := z]) 0"
      by (simp_all add: heappop_def)
    moreover have "mset (siftup (b[0 := z]) 0) = mset (b[0 := z])"
      using False by (intro siftup_mset) simp
    moreover have "add_mset (b ! 0) (mset (b[0 := z])) = add_mset z (mset b)"
      using False by (cases b) simp_all
    ultimately show ?thesis using heap by simp
  qed
qed

lemma heappop_nonempty: "heap \<noteq> [] \<Longrightarrow> \<exists>item heap'. heappop heap = Inr (item, heap')"
  by (simp add: heappop_def Let_def)

section \<open>Masks, text and run lengths\<close>

lemma decimal_0 [simp]: "decimal 48 = Some 0"
  by (simp add: decimal_def decimal_zeros_def)

lemma decimal_1 [simp]: "decimal 49 = Some 1"
  by (simp add: decimal_def decimal_zeros_def)

lemma from_bit_string_repr: "from_bit_string (repr m) = Inr m"
  by (induction m) (simp_all add: repr_def int_of_char_def)

lemma split_not_Nil [simp]: "split s sep \<noteq> []"
  by (induction s) (auto split: list.splits)

lemma join_Cons: "ss \<noteq> [] \<Longrightarrow> join sep (s # ss) = s @ sep @ join sep ss"
  by (cases ss) simp_all

lemma join_split: "join [sep] (split s sep) = s"
proof (induction s)
  case Nil
  show ?case by simp
next
  case (Cons c s)
  obtain p ps where ps: "split s sep = p # ps"
    using split_not_Nil [of s sep] by (cases "split s sep") auto
  show ?case
  proof (cases "c = sep")
    case True
    then show ?thesis using Cons by (simp add: join_Cons)
  next
    case False
    then show ?thesis using Cons ps by (cases ps) simp_all
  qed
qed

lemma split_pieces: "p \<in> set (split s sep) \<Longrightarrow> set p \<subseteq> set s - {sep}"
proof (induction s arbitrary: p)
  case Nil
  then show ?case by simp
next
  case (Cons c s)
  obtain q qs where qs: "split s sep = q # qs"
    using split_not_Nil [of s sep] by (cases "split s sep") auto
  show ?case
  proof (cases "c = sep")
    case True
    with Cons.prems have "p = [] \<or> p \<in> set (split s sep)" by auto
    then show ?thesis using Cons.IH by auto
  next
    case False
    with Cons.prems qs have "p = c # q \<or> p \<in> set qs" by auto
    then show ?thesis
    proof
      assume "p = c # q"
      moreover have "set q \<subseteq> set s - {sep}" using Cons.IH [of q] qs by simp
      ultimately show ?thesis using False by auto
    next
      assume "p \<in> set qs"
      then have "set p \<subseteq> set s - {sep}" using Cons.IH [of p] qs by simp
      then show ?thesis by auto
    qed
  qed
qed

lemma set_repr: "set (repr m) \<subseteq> {48, 49}"
  by (auto simp: repr_def)

lemma replicate_zeros: "set p \<subseteq> {48} \<Longrightarrow> replicate (length p) (48::nat) = p"
  by (induction p) auto

lemma zero_runs_of_pieces:
  "map (\<lambda>zero_run. replicate zero_run (48::nat)) (map length (split (repr m) 49))
     = split (repr m) 49"
proof -
  have "replicate (length p) (48::nat) = p" if "p \<in> set (split (repr m) 49)" for p
  proof -
    have "set p \<subseteq> set (repr m) - {49}" using that by (rule split_pieces)
    with set_repr [of m] have "set p \<subseteq> {48}" by auto
    then show ?thesis by (rule replicate_zeros)
  qed
  then show ?thesis by (simp add: map_idI)
qed

text \<open>
  Claim C5. For every mask \<open>m\<close>, of any length (the empty mask, the masks that are all
  false or all true), \<open>from_rle\<close> applied to \<open>to_rle m\<close> returns \<open>m\<close> itself.
\<close>

theorem C5_from_rle_to_rle: "from_rle (to_rle m) = Inr m"
proof -
  have "from_rle (to_rle m) =
        from_bit_string (join [49] (map (\<lambda>zero_run. replicate zero_run (48::nat))
                                        (map length (split (repr m) 49))))"
    by (simp add: from_rle_def to_rle_def py_str_def)
  also have "\<dots> = from_bit_string (join [49] (split (repr m) 49))"
    by (simp only: zero_runs_of_pieces)
  also have "\<dots> = from_bit_string (repr m)"
    by (simp only: join_split)
  finally show ?thesis by (simp only: from_bit_string_repr)
qed

text \<open>
  Claim C6, as stated: the mask written \<open>01001010\<close> has the run lengths \<open>[1,2,1,1,0]\<close>.
  It has not: the text holds three ones, so splitting at the ones gives four runs.
\<close>

theorem C6_to_rle_example_counterexample:
  "from_bit_string (py_str ''01001010'')
     = Inr [False, True, False, False, True, False, True, False]
   \<and> to_rle [False, True, False, False, True, False, True, False] \<noteq> [1, 2, 1, 1, 0]"
  by (simp add: py_str_def int_of_char_def to_rle_def repr_def)

text \<open>
  Claim C6, amended. The mask written \<open>01001010\<close> (eight bits, three of them live) has the
  run lengths \<open>[1,2,1,1]\<close>: one run more than it has live bits.
\<close>

theorem C6_to_rle_example:
  "from_bit_string (py_str ''01001010'')
     = Inr [False, True, False, False, True, False, True, False]
   \<and> to_rle [False, True, False, False, True, False, True, False] = [1, 2, 1, 1]"
  by (simp add: py_str_def int_of_char_def to_rle_def repr_def)

lemma from_bit_string_digits:
  "\<forall>c\<in>set s. decimal c \<noteq> None \<Longrightarrow>
   from_bit_string s = Inr (map (\<lambda>c. decimal c \<noteq> Some 0) s)"
proof (induction s)
  case Nil
  show ?case by simp
next
  case (Cons c s)
  from Cons.prems obtain n where n: "decimal c = Some n" by auto
  from Cons have "from_bit_string s = Inr (map (\<lambda>c. decimal c \<noteq> Some 0) s)" by simp
  with n show ?case by (simp add: int_of_char_def)
qed

lemma from_bit_string_nondigit:
  "\<exists>c\<in>set s. decimal c = None \<Longrightarrow> from_bit_string s = Inl ValueError"
proof (induction s)
  case Nil
  then show ?case by simp
next
  case (Cons c s)
  show ?case
  proof (cases "decimal c")
    case None
    then show ?thesis by (simp add: int_of_char_def)
  next
    case (Some n)
    with Cons.prems have "\<exists>c\<in>set s. decimal c = None" by auto
    from Cons.IH [OF this] Some show ?thesis by (simp add: int_of_char_def)
  qed
qed

lemma repr_of_bits:
  "set s \<subseteq> {48, 49} \<Longrightarrow> repr (map (\<lambda>c. decimal c \<noteq> Some 0) s) = s"
  by (induction s) (auto simp: repr_def)

text \<open>
  Claim C8, as stated: \<open>from_bit_string\<close> fails whenever the text holds a character other
  than \<open>0\<close> and \<open>1\<close>. The text \<open>2\<close> is accepted and read as a live bit.
\<close>

theorem C8_from_bit_string_counterexample: "from_bit_string (py_str ''2'') = Inr [True]"
  by (simp add: py_str_def int_of_char_def decimal_def decimal_zeros_def)

text \<open>
  Claim C8, amended. \<open>from_bit_string\<close> fails, with the ValueError of \<open>int\<close>, exactly on
  the texts that hold a character that is not a Unicode decimal digit; a text of decimal
  digits, of any script, is accepted, and every digit whose value is not zero is read as
  a live bit. On the texts over \<open>0\<close> and \<open>1\<close> it is the inverse of the rendering \<open>repr\<close>,
  in both directions.
\<close>

theorem C8_from_bit_string:
  "((\<exists>c\<in>set s. decimal c = None) \<longrightarrow> from_bit_string s = Inl ValueError)
   \<and> ((\<forall>c\<in>set s. decimal c \<noteq> None) \<longrightarrow>
        from_bit_string s = Inr (map (\<lambda>c. decimal c \<noteq> Some 0) s))
   \<and> (set s \<subseteq> set (py_str ''01'') \<longrightarrow> (\<exists>m. from_bit_string s = Inr m \<and> repr m = s))
   \<and> from_bit_string (repr m) = Inr m"
proof -
  have "\<exists>m. from_bit_string s = Inr m \<and> repr m = s" if "set s \<subseteq> set (py_str ''01'')"
  proof -
    from that have s: "set s \<subseteq> {48, 49}" by (simp add: py_str_def)
    then have "\<forall>c\<in>set s. decimal c \<noteq> None" by auto
    from from_bit_string_digits [OF this] repr_of_bits [OF s] show ?thesis by simp
  qed
  then show ?thesis
    using from_bit_string_nondigit [of s] from_bit_string_digits [of s] from_bit_string_repr [of m]
    by blast
qed

theorem C8_from_bit_string_witness:
  "py_str ''0a1'' = [48, 97, 49] \<and> decimal 97 = None
   \<and> from_bit_string (py_str ''0a1'') = Inl ValueError
   \<and> decimal 48 = Some 0 \<and> decimal 57 = Some 9 \<and> decimal 1635 = Some 3
   \<and> decimal 1632 = Some 0
   \<and> from_bit_string [48, 57, 1635, 1632] = Inr [False, True, True, False]
   \<and> set (py_str ''0110'') \<subseteq> set (py_str ''01'')
   \<and> (\<exists>m. from_bit_string (py_str ''0110'') = Inr m \<and> repr m = py_str ''0110'')"
proof -
  have a: "decimal 97 = None" by (simp add: decimal_def decimal_zeros_def)
  have d: "decimal 57 = Some 9" "decimal 1635 = Some 3" "decimal 1632 = Some 0"
    by (simp_all add: decimal_def decimal_zeros_def)
  have h1: "\<exists>c\<in>set (py_str ''0a1''). decimal c = None" using a by (simp add: py_str_def)
  have h2: "\<forall>c\<in>set [48, 57, 1635, 1632]. decimal c \<noteq> None" using d by simp
  have h3: "set (py_str ''0110'') \<subseteq> set (py_str ''01'')" by (simp add: py_str_def)
  from C8_from_bit_string [of "py_str ''0a1''"] h1
  have r1: "from_bit_string (py_str ''0a1'') = Inl ValueError" by blast
  from C8_from_bit_string [of "[48, 57, 1635, 1632]"] h2
  have r2: "from_bit_string [48, 57, 1635, 1632] = Inr [False, True, True, False]"
    using d by simp
  from C8_from_bit_string [of "py_str ''0110''"] h3
  have r3: "\<exists>m. from_bit_string (py_str ''0110'') = Inr m \<and> repr m = py_str ''0110''" by blast
  have p: "py_str ''0a1'' = [48, 97, 49]" by (simp add: py_str_def)
  from p a r1 d r2 h3 r3 show ?thesis by simp
qed

section \<open>Building a tree\<close>

lemma leaf_symbols_HuffmanCodeNonLeaf [simp]:
  "leaf_symbols (HuffmanCodeNonLeaf l r) = leaf_symbols l @ leaf_symbols r"
  by (simp add: HuffmanCodeNonLeaf_def)

lemma is_NonLeaf_HuffmanCodeNonLeaf [simp]: "is_NonLeaf (HuffmanCodeNonLeaf l r)"
  by (simp add: HuffmanCodeNonLeaf_def)

lemma node_count_HuffmanCodeNonLeaf:
  "node_count l \<noteq> None \<Longrightarrow> node_count r \<noteq> None \<Longrightarrow> node_count (HuffmanCodeNonLeaf l r) \<noteq> None"
  by (auto simp: HuffmanCodeNonLeaf_def)

lemma merge_loop_result:
  "trees \<noteq> [] \<Longrightarrow>
   \<exists>t. merge_loop trees = Inr [t] \<and> mset (leaf_symbols t) = heap_symbols trees
       \<and> ((1 < length trees \<or> (\<exists>u\<in>set trees. is_NonLeaf u)) \<longrightarrow> is_NonLeaf t)"
proof (induction trees rule: merge_loop.induct)
  case (1 trees)
  show ?case
  proof (cases "1 < length trees")
    case True
    from heappop_nonempty [OF "1.prems"] obtain l trees1 where
      p1: "heappop trees = Inr (l, trees1)" by blast
    from heappop_length [OF p1] True have "trees1 \<noteq> []" by auto
    from heappop_nonempty [OF this] obtain r trees2 where
      p2: "heappop trees1 = Inr (r, trees2)" by blast
    let ?new = "heappush trees2 (HuffmanCodeNonLeaf l r)"
    have m: "mset ?new = add_mset (HuffmanCodeNonLeaf l r) (mset trees2)"
      by (rule heappush_mset)
    have ne: "?new \<noteq> []" using m by auto
    have "HuffmanCodeNonLeaf l r \<in># mset ?new" using m by simp
    then have "HuffmanCodeNonLeaf l r \<in> set ?new" by simp
    then have nl: "\<exists>u\<in>set ?new. is_NonLeaf u"
      using is_NonLeaf_HuffmanCodeNonLeaf by blast
    from "1.IH" [OF True p1 refl p2 refl ne] nl obtain t where
      t: "merge_loop ?new = Inr [t]" "mset (leaf_symbols t) = heap_symbols ?new" "is_NonLeaf t"
      by blast
    have "heap_symbols ?new = heap_symbols trees"
      using heappop_mset [OF p1] heappop_mset [OF p2] m by (simp add: heap_symbols_def)
    moreover have "merge_loop trees = merge_loop ?new"
      using True p1 p2 by (subst merge_loop.simps) simp
    ultimately show ?thesis using t by simp
  next
    case False
    with "1.prems" obtain t where t: "trees = [t]" by (cases trees) auto
    then have "merge_loop trees = Inr [t]" by (subst merge_loop.simps) simp
    with t show ?thesis by (simp add: heap_symbols_def)
  qed
qed

lemma counter_add_keys:
  "map fst (counter_add items elem) =
     (if elem \<in> set (map fst items) then map fst items else map fst items @ [elem])"
  by (induction items elem rule: counter_add.induct) auto

lemma foldl_counter_add_keys:
  "distinct (map fst items) \<Longrightarrow>
   distinct (map fst (foldl counter_add items symbols)) \<and>
   set (map fst (foldl counter_add items symbols)) = set (map fst items) \<union> set symbols"
proof (induction symbols arbitrary: items)
  case Nil
  then show ?case by simp
next
  case (Cons s symbols)
  have "distinct (map fst (counter_add items s))"
    using Cons.prems by (simp add: counter_add_keys)
  from Cons.IH [OF this] show ?case by (auto simp: counter_add_keys split: if_splits)
qed

lemma Counter_items_keys:
  "distinct (map fst (Counter_items symbols))" "set (map fst (Counter_items symbols)) = set symbols"
  using foldl_counter_add_keys [of "[]" symbols] by (simp_all add: Counter_items_def)

lemma heap_symbols_leaves:
  "heap_symbols (map (\<lambda>(symbol, count). Leaf (Some count) symbol) counts) = mset (map fst counts)"
  by (induction counts) (auto simp: heap_symbols_def)

lemma for_symbols_result:
  assumes "symbols \<noteq> []"
  shows "\<exists>t. for_symbols symbols = Inr t \<and> distinct (leaf_symbols t)
           \<and> set (leaf_symbols t) = set symbols
           \<and> ((\<exists>a\<in>set symbols. \<exists>b\<in>set symbols. a \<noteq> b) \<longrightarrow> is_NonLeaf t)"
proof -
  let ?counts = "Counter_items symbols"
  let ?trees = "map (\<lambda>(symbol, count). Leaf (Some count) symbol) ?counts"
  have keys: "distinct (map fst ?counts)" "set (map fst ?counts) = set symbols"
    by (rule Counter_items_keys)+
  have len: "length (heapify ?trees) = length ?counts"
    using mset_eq_length [OF heapify_mset [of ?trees]] by simp
  from keys(2) assms have "?counts \<noteq> []" by auto
  with len have ne: "heapify ?trees \<noteq> []" by auto
  from merge_loop_result [OF ne] obtain t where
    t: "merge_loop (heapify ?trees) = Inr [t]"
       "mset (leaf_symbols t) = heap_symbols (heapify ?trees)"
       "1 < length (heapify ?trees) \<longrightarrow> is_NonLeaf t"
    by blast
  have "heap_symbols (heapify ?trees) = heap_symbols ?trees"
    by (simp add: heap_symbols_def heapify_mset)
  with t(2) have ms: "mset (leaf_symbols t) = mset (map fst ?counts)"
    by (simp add: heap_symbols_leaves)
  have d: "distinct (leaf_symbols t)"
    using keys(1) mset_eq_imp_distinct_iff [OF ms] by simp
  have s: "set (leaf_symbols t) = set symbols"
    using keys(2) mset_eq_setD [OF ms] by simp
  have "is_NonLeaf t" if "\<exists>a\<in>set symbols. \<exists>b\<in>set symbols. a \<noteq> b"
  proof -
    from that keys(2) obtain a b where
      "a \<in> set (map fst ?counts)" "b \<in> set (map fst ?counts)" "a \<noteq> b" by auto
    then have "1 < length (map fst ?counts)"
      by (cases "map fst ?counts" rule: list.exhaust; cases "tl (map fst ?counts)") auto
    with len t(3) show ?thesis by simp
  qed
  moreover have "for_symbols symbols = Inr t"
    using t(1) by (simp add: for_symbols_def)
  ultimately show ?thesis using d s by blast
qed

text \<open>Every tree in the heap of \<open>for_symbols\<close> has a known count, so \<open>lt\<close> is only
  asked about known counts.\<close>

lemma merge_loop_known:
  "\<forall>t\<in>set trees. node_count t \<noteq> None \<Longrightarrow> merge_loop trees = Inr ts \<Longrightarrow>
   \<forall>t\<in>set ts. node_count t \<noteq> None"
proof (induction trees rule: merge_loop.induct)
  case (1 trees)
  show ?case
  proof (cases "1 < length trees")
    case False
    with "1.prems" show ?thesis by (subst (asm) merge_loop.simps) auto
  next
    case True
    then have "trees \<noteq> []" by auto
    from heappop_nonempty [OF this] obtain l trees1 where
      p1: "heappop trees = Inr (l, trees1)" by blast
    from heappop_length [OF p1] True have "trees1 \<noteq> []" by auto
    from heappop_nonempty [OF this] obtain r trees2 where
      p2: "heappop trees1 = Inr (r, trees2)" by blast
    let ?new = "heappush trees2 (HuffmanCodeNonLeaf l r)"
    have s1: "set trees = insert l (set trees1)"
      using heappop_mset [OF p1] by (metis set_mset_add_mset_insert set_mset_mset)
    have s2: "set trees1 = insert r (set trees2)"
      using heappop_mset [OF p2] by (metis set_mset_add_mset_insert set_mset_mset)
    have s3: "set ?new = insert (HuffmanCodeNonLeaf l r) (set trees2)"
      using heappush_mset [of trees2 "HuffmanCodeNonLeaf l r"]
      by (metis set_mset_add_mset_insert set_mset_mset)
    have known: "\<forall>t\<in>set ?new. node_count t \<noteq> None"
      using "1.prems"(1) s1 s2 s3 node_count_HuffmanCodeNonLeaf [of l r] by auto
    have "merge_loop ?new = Inr ts"
      using "1.prems"(2) True p1 p2 by (subst (asm) merge_loop.simps) simp
    from "1.IH" [OF True p1 refl p2 refl known this] show ?thesis .
  qed
qed

lemma for_symbols_known: "for_symbols symbols = Inr t \<Longrightarrow> node_count t \<noteq> None"
proof -
  assume a: "for_symbols symbols = Inr t"
  let ?trees = "map (\<lambda>(symbol, count). Leaf (Some count) symbol) (Counter_items symbols)"
  have "set (heapify ?trees) = set ?trees"
    using heapify_mset [of ?trees] by (metis set_mset_mset)
  then have k: "\<forall>t\<in>set (heapify ?trees). node_count t \<noteq> None" by auto
  from a obtain ts where ts: "merge_loop (heapify ?trees) = Inr ts" "t \<in> set ts"
    by (auto simp: for_symbols_def split: sum.splits list.splits)
  from merge_loop_known [OF k ts(1)] ts(2) show ?thesis by blast
qed

text \<open>
  Claim C7. Building a tree from the empty symbol sequence fails and returns no tree:
  the list of subtrees is empty, and \<open>trees[0]\<close> raises Python's IndexError (the source has
  no exception class of its own; this is the failure the specification calls InvalidInput).
\<close>

theorem C7_for_symbols_empty: "for_symbols [] = Inl IndexError"
  by code_simp

section \<open>Codewords\<close>

lemma helper_codeword:
  "(s \<in> set (leaf_symbols t) \<longrightarrow>
      (\<exists>p c. symbol_prefix_map_helper t pfx result s = Some (pfx @ p)
             \<and> (\<forall>rest. descend t (p @ rest) = Inr (Leaf c s, rest))))
   \<and> (s \<notin> set (leaf_symbols t) \<longrightarrow> symbol_prefix_map_helper t pfx result s = result s)"
proof (induction t arbitrary: pfx result)
  case (Leaf c s')
  show ?case by auto
next
  case (NonLeaf c l r)
  let ?res = "symbol_prefix_map_helper l (pfx @ [False]) result"
  show ?case
  proof (cases "s \<in> set (leaf_symbols r)")
    case True
    with NonLeaf.IH(2) [of "pfx @ [True]" ?res] obtain p c' where
      "symbol_prefix_map_helper r (pfx @ [True]) ?res s = Some ((pfx @ [True]) @ p)"
      "\<forall>rest. descend r (p @ rest) = Inr (Leaf c' s, rest)" by blast
    then have "symbol_prefix_map_helper (NonLeaf c l r) pfx result s = Some (pfx @ (True # p))"
      "\<forall>rest. descend (NonLeaf c l r) ((True # p) @ rest) = Inr (Leaf c' s, rest)"
      by simp_all
    with True show ?thesis by (metis UnCI leaf_symbols.simps(2) set_append)
  next
    case False
    with NonLeaf.IH(2) [of "pfx @ [True]" ?res]
    have r: "symbol_prefix_map_helper (NonLeaf c l r) pfx result s = ?res s" by simp
    show ?thesis
    proof (cases "s \<in> set (leaf_symbols l)")
      case True
      with NonLeaf.IH(1) [of "pfx @ [False]" result] obtain p c' where
        "?res s = Some ((pfx @ [False]) @ p)"
        "\<forall>rest. descend l (p @ rest) = Inr (Leaf c' s, rest)" by blast
      with r have "symbol_prefix_map_helper (NonLeaf c l r) pfx result s = Some (pfx @ (False # p))"
        "\<forall>rest. descend (NonLeaf c l r) ((False # p) @ rest) = Inr (Leaf c' s, rest)"
        by simp_all
      with True show ?thesis by (metis UnCI leaf_symbols.simps(2) set_append)
    next
      case l: False
      with NonLeaf.IH(1) [of "pfx @ [False]" result] r False show ?thesis by simp
    qed
  qed
qed

lemma symbol_prefix_map_dom: "dom (symbol_prefix_map t) = set (leaf_symbols t)"
proof -
  have "(symbol_prefix_map t s \<noteq> None) = (s \<in> set (leaf_symbols t))" for s
    using helper_codeword [of s t "[]" Map.empty]
    by (cases "s \<in> set (leaf_symbols t)") (auto simp: symbol_prefix_map_def)
  then show ?thesis by (auto simp: dom_def)
qed

lemma codeword_descend:
  assumes "symbol_prefix_map t s = Some code"
  shows "\<exists>c. \<forall>rest. descend t (code @ rest) = Inr (Leaf c s, rest)"
proof -
  from assms have "s \<in> set (leaf_symbols t)"
    using symbol_prefix_map_dom [of t] by auto
  with helper_codeword [of s t "[]" Map.empty] assms show ?thesis
    by (auto simp: symbol_prefix_map_def)
qed

lemma codewords_prefix_free:
  assumes "symbol_prefix_map t s1 = Some c1" "symbol_prefix_map t s2 = Some c2" "s1 \<noteq> s2"
  shows "\<not> prefix c1 c2"
proof
  assume "prefix c1 c2"
  then obtain q where q: "c2 = c1 @ q" by (auto simp: prefix_def)
  from codeword_descend [OF assms(1)] obtain a where
    "descend t (c1 @ q) = Inr (Leaf a s1, q)" by blast
  moreover from codeword_descend [OF assms(2)] obtain b where
    "descend t (c2 @ []) = Inr (Leaf b s2, [])" by blast
  ultimately show False using q assms(3) by simp
qed

text \<open>
  Claim C9. For every non-empty symbol sequence, \<open>for_symbols\<close> returns a tree; the
  codeword map of that tree has exactly the symbols of the sequence as its keys, and it
  is prefix-free: the codeword of a symbol is never a prefix of the codeword of a
  different symbol.
\<close>

theorem C9_codewords_prefix_free:
  assumes "symbols \<noteq> []"
  shows "\<exists>t. for_symbols symbols = Inr t
           \<and> dom (symbol_prefix_map t) = set symbols
           \<and> (\<forall>s1 s2 c1 c2. symbol_prefix_map t s1 = Some c1 \<and> symbol_prefix_map t s2 = Some c2
                 \<and> s1 \<noteq> s2 \<longrightarrow> \<not> prefix c1 c2)"
proof -
  from for_symbols_result [OF assms] obtain t where
    "for_symbols symbols = Inr t" "set (leaf_symbols t) = set symbols" by blast
  then show ?thesis using codewords_prefix_free [of t] symbol_prefix_map_dom [of t] by blast
qed

theorem C9_codewords_prefix_free_witness:
  "[0, 0, 3, 1] \<noteq> ([] :: nat list) \<and>
   (\<exists>t. for_symbols [0, 0, 3, 1] = Inr t
           \<and> dom (symbol_prefix_map t) = {0, 1, 3}
           \<and> (\<forall>s1 s2 c1 c2. symbol_prefix_map t s1 = Some c1 \<and> symbol_prefix_map t s2 = Some c2
                 \<and> s1 \<noteq> s2 \<longrightarrow> \<not> prefix c1 c2))"
  using C9_codewords_prefix_free [of "[0, 0, 3, 1]"] by (simp add: insert_commute)

section \<open>Decoding\<close>

lemma helper_forget_counts:
  "symbol_prefix_map_helper (forget_counts t) pfx result = symbol_prefix_map_helper t pfx result"
  by (induction t arbitrary: pfx result) simp_all

lemma symbol_prefix_map_forget_counts [simp]:
  "symbol_prefix_map (forget_counts t) = symbol_prefix_map t"
  by (simp add: symbol_prefix_map_def helper_forget_counts)

lemma is_NonLeaf_forget_counts [simp]: "is_NonLeaf (forget_counts t) = is_NonLeaf t"
  by (cases t) simp_all

lemma append_codes_concat:
  "set symbols \<subseteq> dom m \<Longrightarrow>
   append_codes m symbols bits = Inr (bits @ concat (map (\<lambda>s. the (m s)) symbols))"
  by (induction symbols arbitrary: bits) auto

lemma decode_loop_Nil [simp]: "decode_loop t [] acc = Some (Inr acc)"
  by (subst decode_loop.simps) simp

lemma codeword_not_Nil:
  assumes "is_NonLeaf t" "symbol_prefix_map t s = Some code"
  shows "code \<noteq> []"
proof
  assume "code = []"
  with codeword_descend [OF assms(2)] obtain c where "descend t [] = Inr (Leaf c s, [])"
    by auto
  with assms(1) show False by (cases t) simp_all
qed

lemma decode_step:
  assumes "is_NonLeaf t" "symbol_prefix_map t s = Some code"
  shows "decode_loop t (code @ rest) acc = decode_loop t rest (acc @ [s])"
proof -
  from codeword_descend [OF assms(2)] obtain c where
    "descend t (code @ rest) = Inr (Leaf c s, rest)" by blast
  moreover have "code @ rest \<noteq> []" using codeword_not_Nil [OF assms] by simp
  ultimately show ?thesis by (subst decode_loop.simps) simp
qed

lemma decode_codes:
  "is_NonLeaf t \<Longrightarrow> set symbols \<subseteq> dom (symbol_prefix_map t) \<Longrightarrow>
   decode_loop t (concat (map (\<lambda>s. the (symbol_prefix_map t s)) symbols) @ rest) acc =
   decode_loop t rest (acc @ symbols)"
proof (induction symbols arbitrary: acc)
  case Nil
  show ?case by simp
next
  case (Cons s symbols)
  from Cons.prems(2) obtain code where code: "symbol_prefix_map t s = Some code" by auto
  have "decode_loop t (concat (map (\<lambda>s. the (symbol_prefix_map t s)) (s # symbols)) @ rest) acc =
        decode_loop t (code @ (concat (map (\<lambda>s. the (symbol_prefix_map t s)) symbols) @ rest)) acc"
    using code by simp
  also have "\<dots> = decode_loop t (concat (map (\<lambda>s. the (symbol_prefix_map t s)) symbols) @ rest) (acc @ [s])"
    by (rule decode_step [OF Cons.prems(1) code])
  also have "\<dots> = decode_loop t rest ((acc @ [s]) @ symbols)"
    using Cons.prems by (intro Cons.IH) simp_all
  finally show ?case by simp
qed

lemma descend_cut:
  "descend t (w @ q) = Inr (Leaf c s, []) \<Longrightarrow> q \<noteq> [] \<Longrightarrow> descend t w = Inl IndexError"
proof (induction t w rule: descend.induct)
  case (1 c' s' bits)
  then show ?case by simp
next
  case (2 c' l r)
  show ?case by simp
next
  case (3 c' l r branch bits)
  then show ?case by simp
qed

lemma decode_cut:
  assumes "symbol_prefix_map t s = Some (w @ q)" "w \<noteq> []" "q \<noteq> []"
  shows "decode_loop t w acc = Some (Inl IndexError)"
proof -
  from codeword_descend [OF assms(1)] obtain c where
    "descend t ((w @ q) @ []) = Inr (Leaf c s, [])" by blast
  then have "descend t w = Inl IndexError" using assms(3) descend_cut [of t w q c s] by simp
  then show ?thesis using assms(2) by (subst decode_loop.simps) simp
qed

lemma for_symbols_Nil: "for_symbols [] = Inl IndexError"
  by code_simp

lemma huffman_compress_bits:
  assumes "for_symbols symbols = Inr t"
  shows "huffman_compress symbols =
         Inr (serialize t @ concat (map (\<lambda>s. the (symbol_prefix_map t s)) symbols))"
    and "dom (symbol_prefix_map t) = set symbols"
proof -
  have "symbols \<noteq> []"
  proof
    assume "symbols = []"
    then have "for_symbols symbols = Inl IndexError" by (simp add: for_symbols_Nil)
    with assms show False by simp
  qed
  from for_symbols_result [OF this] assms have "set (leaf_symbols t) = set symbols" by auto
  then show d: "dom (symbol_prefix_map t) = set symbols" by (simp add: symbol_prefix_map_dom)
  then show "huffman_compress symbols =
         Inr (serialize t @ concat (map (\<lambda>s. the (symbol_prefix_map t s)) symbols))"
    using assms by (simp add: huffman_compress_def append_codes_concat)
qed

lemma huffman_decompress_serialize:
  "huffman_decompress (serialize t @ payload) = decode_loop (forget_counts t) payload []"
  by (simp add: huffman_decompress_def parse_serialize_append)

text \<open>
  The round trip holds for every sequence with at least two distinct symbols: the tree
  is then a non-leaf, every codeword is a non-empty path to its leaf, and the decoder
  walks the same paths.
\<close>

lemma roundtrip_two_symbols:
  assumes "\<exists>a\<in>set symbols. \<exists>b\<in>set symbols. a \<noteq> b"
  shows "\<exists>bits. huffman_compress symbols = Inr bits \<and> huffman_decompress bits = Some (Inr symbols)"
proof -
  from assms have "symbols \<noteq> []" by auto
  from for_symbols_result [OF this] assms obtain t where
    t: "for_symbols symbols = Inr t" "is_NonLeaf t" by blast
  let ?t = "forget_counts t"
  let ?enc = "concat (map (\<lambda>s. the (symbol_prefix_map ?t s)) symbols)"
  have "huffman_decompress (serialize t @ ?enc) = decode_loop ?t (?enc @ []) []"
    by (simp add: huffman_decompress_serialize)
  also have "\<dots> = decode_loop ?t [] ([] @ symbols)"
    using t(2) huffman_compress_bits(2) [OF t(1)] by (intro decode_codes) simp_all
  finally have "huffman_decompress (serialize t @ ?enc) = Some (Inr symbols)" by simp
  then show ?thesis using huffman_compress_bits(1) [OF t(1)] by simp
qed

section \<open>A tree that is a single leaf\<close>

lemma Counter_items_replicate:
  "foldl counter_add [(s, k)] (replicate n s) = [(s, k + n)]"
  by (induction n arbitrary: k) simp_all

lemma heapify_single: "heapify [t] = [t]"
  by (simp add: heapify_def)

lemma for_symbols_replicate:
  assumes "0 < n"
  shows "for_symbols (replicate n s) = Inr (Leaf (Some n) s)"
proof -
  from assms obtain k where n: "n = Suc k" by (cases n) auto
  have "Counter_items (replicate n s) = [(s, n)]"
    using Counter_items_replicate [of s 1 k] by (simp add: Counter_items_def n)
  moreover have "merge_loop [Leaf (Some n) s] = Inr [Leaf (Some n) s]"
    by (subst merge_loop.simps) simp
  ultimately show ?thesis by (simp add: for_symbols_def heapify_single)
qed

lemma append_codes_empty_codeword:
  "m s = Some [] \<Longrightarrow> append_codes m (replicate n s) bits = Inr bits"
  by (induction n) simp_all

text \<open>
  Claim C1 says that \<open>huffman_decompress (huffman_compress symbols)\<close> is \<open>symbols\<close> for
  every non-empty sequence, sequences of length 1 and of one repeated symbol included.
  The code does not do this for a sequence that repeats one symbol \<open>n > 0\<close> times: the
  tree is a single leaf, every codeword is empty, the output is the serialized leaf
  alone, and decompressing it returns the empty sequence.
\<close>

theorem C1_single_symbol_roundtrip_fails:
  assumes "0 < n"
  shows "huffman_compress (replicate n s) = Inr (serialize (Leaf (Some n) s))
         \<and> huffman_decompress (serialize (Leaf (Some n) s)) = Some (Inr [])
         \<and> replicate n s \<noteq> []"
proof -
  have "symbol_prefix_map (Leaf (Some n) s) s = Some []"
    by (simp add: symbol_prefix_map_def)
  then have "huffman_compress (replicate n s) = Inr (serialize (Leaf (Some n) s))"
    using for_symbols_replicate [OF assms, of s]
    by (simp add: huffman_compress_def append_codes_empty_codeword)
  moreover have "huffman_decompress (serialize (Leaf (Some n) s)) = Some (Inr [])"
    using huffman_decompress_serialize [of "Leaf (Some n) s" "[]"] by simp
  ultimately show ?thesis using assms by simp
qed

theorem C1_single_symbol_roundtrip_fails_witness:
  "(0::nat) < 1 \<and> huffman_compress [5] = Inr [True, False, False, False, True, True, False, True]
   \<and> huffman_decompress [True, False, False, False, True, True, False, True] = Some (Inr [])"
proof -
  have b: "serialize (Leaf (Some 1) 5) = [True, False, False, False, True, True, False, True]"
    by code_simp
  show ?thesis using C1_single_symbol_roundtrip_fails [of 1 5] by (simp only: b) simp
qed

text \<open>
  Claim C2 says that \<open>huffman_compress [5, 5, 5, 5]\<close> builds a single leaf, gives every
  symbol the empty codeword, so that the output is the serialized tree, and that
  \<open>huffman_decompress\<close> of that output returns \<open>[5, 5, 5, 5]\<close>. The first three hold; the
  decompression returns the empty sequence instead.
\<close>

theorem C2_four_fives:
  "for_symbols [5, 5, 5, 5] = Inr (Leaf (Some 4) 5)
   \<and> symbol_prefix_map (Leaf (Some 4) 5) = [5 \<mapsto> []]
   \<and> huffman_compress [5, 5, 5, 5] = Inr (serialize (Leaf (Some 4) 5))
   \<and> huffman_decompress (serialize (Leaf (Some 4) 5)) = Some (Inr [])"
proof -
  have "for_symbols [5, 5, 5, 5] = Inr (Leaf (Some 4) 5)" by code_simp
  moreover have "symbol_prefix_map (Leaf (Some 4) 5) = [5 \<mapsto> []]"
    by (simp add: symbol_prefix_map_def)
  moreover have "huffman_compress [5, 5, 5, 5] = Inr (serialize (Leaf (Some 4) 5))" by code_simp
  moreover have "huffman_decompress (serialize (Leaf (Some 4) 5)) = Some (Inr [])" by code_simp
  ultimately show ?thesis by blast
qed


section \<open>A leaf root and trailing bits\<close>

lemma decode_loop_leaf_diverges:
  "bits \<noteq> [] \<Longrightarrow> decode_loop (Leaf c s) bits acc = None"
proof (rule ccontr)
  assume ne: "bits \<noteq> []" and "decode_loop (Leaf c s) bits acc \<noteq> None"
  then obtain y where y: "decode_loop (Leaf c s) bits acc = Some y" by auto
  have "\<not> (Leaf c s = Leaf c s \<and> bits \<noteq> [])"
  proof (rule decode_loop.raw_induct [where P = "\<lambda>t b a y. \<not> (t = Leaf c s \<and> b \<noteq> [])", OF _ y])
    fix f t b a r
    assume IH: "\<And>t b a r. f t b a = Some r \<Longrightarrow> \<not> (t = Leaf c s \<and> b \<noteq> [])"
      and eq: "(if b \<noteq> []
                then case descend t b of
                       Inl e \<Rightarrow> Some (Inl e)
                     | Inr (node, bits') \<Rightarrow> f t bits' (a @ [symbol node])
                else Some (Inr a)) = Some r"
    show "\<not> (t = Leaf c s \<and> b \<noteq> [])"
    proof
      assume a: "t = Leaf c s \<and> b \<noteq> []"
      with eq have "f (Leaf c s) b (a @ [s]) = Some r" by simp
      from IH [OF this] a show False by simp
    qed
  qed
  with ne show False by simp
qed

text \<open>
  Claim C10. When the bits parse to a tree that is a single leaf and at least one bit is
  left after the tree, \<open>huffman_decompress\<close> does not return: the decoding loop appends
  the leaf's symbol and consumes no bit, for ever.
\<close>

theorem C10_leaf_root_diverges:
  assumes "parse bits = Inr (Leaf c s, rest)" "rest \<noteq> []"
  shows "huffman_decompress bits = None"
  using assms by (simp add: huffman_decompress_def decode_loop_leaf_diverges)

theorem C10_leaf_root_diverges_witness:
  "parse [True, True, False] = Inr (Leaf None 0, [False]) \<and> [False] \<noteq> []
   \<and> huffman_decompress [True, True, False] = None"
proof -
  have h: "parse [True, True, False] = Inr (Leaf None 0, [False])" by code_simp
  show ?thesis using h C10_leaf_root_diverges [OF h] by simp
qed

section \<open>Truncated streams\<close>

lemma leaf_codeword_Nil:
  assumes "\<not> is_NonLeaf t" "symbol_prefix_map t s = Some code"
  shows "code = []"
  using assms by (cases t) (auto simp: symbol_prefix_map_def split: if_splits)

lemma truncated_inside_codeword:
  assumes t: "for_symbols symbols = Inr t"
    and j: "j < length symbols"
    and code: "symbol_prefix_map t (symbols ! j) = Some (w @ q)"
    and w: "w \<noteq> []" and q: "q \<noteq> []"
  shows "huffman_decompress
           (serialize t @ concat (map (\<lambda>s. the (symbol_prefix_map t s)) (take j symbols)) @ w)
         = Some (Inl IndexError)"
proof -
  let ?t = "forget_counts t"
  have nl: "is_NonLeaf ?t"
    using leaf_codeword_Nil [OF _ code] w by auto
  have "set (take j symbols) \<subseteq> set symbols" by (rule set_take_subset)
  then have sub: "set (take j symbols) \<subseteq> dom (symbol_prefix_map ?t)"
    using huffman_compress_bits(2) [OF t] by simp
  have "huffman_decompress
           (serialize t @ concat (map (\<lambda>s. the (symbol_prefix_map t s)) (take j symbols)) @ w)
        = decode_loop ?t (concat (map (\<lambda>s. the (symbol_prefix_map ?t s)) (take j symbols)) @ w) []"
    by (simp add: huffman_decompress_serialize)
  also have "\<dots> = decode_loop ?t w ([] @ take j symbols)"
    by (rule decode_codes [OF nl sub])
  also have "\<dots> = Some (Inl IndexError)"
    using code by (intro decode_cut [of ?t "symbols ! j" w q] w q) simp
  finally show ?thesis .
qed

lemma truncated_between_codewords:
  assumes t: "for_symbols symbols = Inr t" and nl: "is_NonLeaf t"
  shows "huffman_decompress
           (serialize t @ concat (map (\<lambda>s. the (symbol_prefix_map t s)) (take j symbols)))
         = Some (Inr (take j symbols))"
proof -
  let ?t = "forget_counts t"
  have "set (take j symbols) \<subseteq> set symbols" by (rule set_take_subset)
  then have sub: "set (take j symbols) \<subseteq> dom (symbol_prefix_map ?t)"
    using huffman_compress_bits(2) [OF t] by simp
  have "huffman_decompress
           (serialize t @ concat (map (\<lambda>s. the (symbol_prefix_map t s)) (take j symbols)))
        = decode_loop ?t (concat (map (\<lambda>s. the (symbol_prefix_map ?t s)) (take j symbols)) @ []) []"
    by (simp add: huffman_decompress_serialize)
  also have "\<dots> = decode_loop ?t [] ([] @ take j symbols)"
    using nl by (intro decode_codes sub) simp
  finally show ?thesis by simp
qed

lemma parse_symbol_len_zeros: "parse_symbol_len (replicate j False) n = Inl IndexError"
  by (induction j arbitrary: n) simp_all

lemma parse_leaf_cut_prefix:
  assumes "m \<le> k"
  shows "parse_leaf (take m (replicate k False @ True # sb)) = Inl IndexError"
proof -
  have "take m (replicate k False @ True # sb) = replicate m False"
    using assms by (simp add: min_def)
  then show ?thesis by (simp add: parse_leaf_def parse_symbol_len_zeros)
qed

lemma parse_leaf_cut_symbol:
  assumes "k < m" "m < 2 * k + 1" "length sb = k"
  shows "\<exists>t'. parse_leaf (take m (replicate k False @ True # sb)) = Inr (t', [])"
proof -
  from assms obtain i where i: "m = k + Suc i" "i < k"
    by (metis add_Suc_right less_imp_Suc_add mult_2 nat_add_left_cancel_less add_Suc_shift Suc_eq_plus1)
  then have "take m (replicate k False @ True # sb) = replicate k False @ True # take i sb"
    by simp
  then show ?thesis using i by (simp add: parse_leaf_def parse_symbol_len_unary)
qed

lemma leaf_symbols_not_Nil [simp]: "leaf_symbols t \<noteq> []"
  by (induction t) simp_all

lemma parse_NonLeaf_left_cut:
  assumes "parse bits = Inl IndexError \<or> (\<exists>t'. parse bits = Inr (t', []))"
  shows "parse (False # bits) = Inl IndexError"
  using assms by auto

lemma parse_cut:
  "m < length (serialize t) \<Longrightarrow>
   parse (take m (serialize t)) = Inl IndexError \<or> (\<exists>t'. parse (take m (serialize t)) = Inr (t', []))"
proof (induction t arbitrary: m)
  case (Leaf c s)
  let ?k = "length (int_to_bit_list s)"
  show ?case
  proof (cases m)
    case 0
    then show ?thesis by simp
  next
    case (Suc m')
    show ?thesis
    proof (cases "m' \<le> ?k")
      case True
      from parse_leaf_cut_prefix [OF this, of "int_to_bit_list s"] Suc show ?thesis by simp
    next
      case False
      then have "?k < m'" "m' < 2 * ?k + 1" using Leaf.prems Suc by simp_all
      from parse_leaf_cut_symbol [OF this refl] Suc show ?thesis by simp
    qed
  qed
next
  case (NonLeaf c l r)
  show ?case
  proof (cases m)
    case 0
    then show ?thesis by simp
  next
    case (Suc m')
    show ?thesis
    proof (cases "m' < length (serialize l)")
      case True
      from NonLeaf.IH(1) [OF True] have "parse (False # take m' (serialize l)) = Inl IndexError"
        by (rule parse_NonLeaf_left_cut)
      with True Suc show ?thesis by simp
    next
      case False
      let ?i = "m' - length (serialize l)"
      from False NonLeaf.prems Suc have i: "?i < length (serialize r)" by simp
      have "take m (serialize (NonLeaf c l r)) = False # serialize l @ take ?i (serialize r)"
        using False Suc by simp
      moreover from NonLeaf.IH(2) [OF i]
      have "parse (False # serialize l @ take ?i (serialize r)) = Inl IndexError
            \<or> (\<exists>t'. parse (False # serialize l @ take ?i (serialize r)) = Inr (t', []))"
        by (auto simp: parse_serialize_append)
      ultimately show ?thesis by simp
    qed
  qed
qed

lemma parse_cut_early:
  "m + length (int_to_bit_list (last (leaf_symbols t))) < length (serialize t) \<Longrightarrow>
   parse (take m (serialize t)) = Inl IndexError"
proof (induction t arbitrary: m)
  case (Leaf c s)
  show ?case
  proof (cases m)
    case 0
    then show ?thesis by simp
  next
    case (Suc m')
    with Leaf.prems have "m' \<le> length (int_to_bit_list s)" by simp
    from parse_leaf_cut_prefix [OF this, of "int_to_bit_list s"] Suc show ?thesis by simp
  qed
next
  case (NonLeaf c l r)
  show ?case
  proof (cases m)
    case 0
    then show ?thesis by simp
  next
    case (Suc m')
    show ?thesis
    proof (cases "m' < length (serialize l)")
      case True
      from parse_cut [OF True] have "parse (False # take m' (serialize l)) = Inl IndexError"
        by (rule parse_NonLeaf_left_cut)
      with True Suc show ?thesis by simp
    next
      case False
      let ?i = "m' - length (serialize l)"
      from False NonLeaf.prems Suc
      have "?i + length (int_to_bit_list (last (leaf_symbols r))) < length (serialize r)"
        by simp
      from NonLeaf.IH(2) [OF this]
      have "parse (False # serialize l @ take ?i (serialize r)) = Inl IndexError"
        by (simp add: parse_serialize_append)
      moreover have "take m (serialize (NonLeaf c l r)) = False # serialize l @ take ?i (serialize r)"
        using False Suc by simp
      ultimately show ?thesis by simp
    qed
  qed
qed

lemma truncated_inside_tree:
  assumes "m + length (int_to_bit_list (last (leaf_symbols t))) < length (serialize t)"
  shows "huffman_decompress (take m (serialize t @ payload)) = Some (Inl IndexError)"
proof -
  from assms have "take m (serialize t @ payload) = take m (serialize t)" by simp
  then have "parse (take m (serialize t @ payload)) = Inl IndexError"
    using parse_cut_early [OF assms] by (simp only:)
  then show ?thesis by (simp only: huffman_decompress_def sum.case)
qed

text \<open>
  Claim C4, as stated: cutting any non-zero number of trailing bits off a compressed
  stream makes \<open>huffman_decompress\<close> fail. Cutting the last bit off the stream of
  \<open>[1, 2]\<close> removes the one-bit codeword of \<open>2\<close>, and the decoder returns \<open>[1]\<close>.
\<close>

theorem C4_truncation_counterexample:
  "huffman_compress [1, 2] =
     Inr [False, True, False, False, True, False, True, True, False, True, True, True, False]
   \<and> huffman_decompress
       (take 12 [False, True, False, False, True, False, True, True, False, True, True, True, False])
     = Some (Inr [1])"
  by code_simp

text \<open>
  Claim C4, amended. Let \<open>bits\<close> be the compressed stream of \<open>symbols\<close> and \<open>t\<close> the tree,
  and keep only the first \<open>m\<close> bits. \<open>huffman_decompress\<close> fails with the IndexError of
  \<open>bits.pop(0)\<close> (the failure the specification calls TruncatedInput)
  \<^item> when the cut falls inside the serialized tree before the symbol bits of its last
    leaf: \<open>m\<close> plus the number of those symbol bits is less than the length of the tree;
  \<^item> when the cut falls strictly inside a codeword of the payload: \<open>length b0 < m < length b1\<close>,
    where \<open>b0\<close> is the stream up to the end of the codeword of the \<open>j\<close>-th symbol and \<open>b1\<close>
    the stream up to the end of the next codeword.
  A cut exactly at the end of a codeword is not detected: when the sequence has two
  distinct symbols, decompression returns the first \<open>j\<close> symbols. (A cut inside the
  symbol bits of the last leaf of the tree is left open.)
\<close>

theorem C4_truncation:
  assumes "huffman_compress symbols = Inr bits"
    and "for_symbols symbols = Inr t"
    and "append_codes (symbol_prefix_map t) (take j symbols) (serialize t) = Inr b0"
    and "append_codes (symbol_prefix_map t) (take (Suc j) symbols) (serialize t) = Inr b1"
  shows "(m + length (int_to_bit_list (last (leaf_symbols t))) < length (serialize t) \<longrightarrow>
            huffman_decompress (take m bits) = Some (Inl IndexError))
       \<and> (length b0 < m \<and> m < length b1 \<longrightarrow>
            huffman_decompress (take m bits) = Some (Inl IndexError))
       \<and> ((\<exists>a\<in>set symbols. \<exists>b\<in>set symbols. a \<noteq> b) \<longrightarrow>
            huffman_decompress (take (length b0) bits) = Some (Inr (take j symbols)))"
proof -
  let ?code = "\<lambda>s. the (symbol_prefix_map t s)"
  let ?enc = "\<lambda>xs. concat (map ?code xs)"
  have dom: "dom (symbol_prefix_map t) = set symbols"
    by (rule huffman_compress_bits(2) [OF assms(2)])
  have bits: "bits = serialize t @ ?enc symbols"
    using huffman_compress_bits(1) [OF assms(2)] assms(1) by simp
  have sub: "set (take k symbols) \<subseteq> dom (symbol_prefix_map t)" for k
    using set_take_subset [of k symbols] dom by simp
  have b0: "b0 = serialize t @ ?enc (take j symbols)"
    using assms(3) append_codes_concat [OF sub [of j], of "serialize t"] by simp
  have b1: "b1 = serialize t @ ?enc (take (Suc j) symbols)"
    using assms(4) append_codes_concat [OF sub [of "Suc j"], of "serialize t"] by simp
  have split_j: "?enc symbols = ?enc (take j symbols) @ ?enc (drop j symbols)"
    by (metis append_take_drop_id concat_append map_append)
  have bits0: "bits = b0 @ ?enc (drop j symbols)"
    using bits b0 split_j by simp
  have part1: "huffman_decompress (take m bits) = Some (Inl IndexError)"
    if m: "length b0 < m" "m < length b1"
  proof -
    have j: "j < length symbols"
    proof (rule ccontr)
      assume "\<not> j < length symbols"
      then have "take (Suc j) symbols = take j symbols" by simp
      with b0 b1 have "b1 = b0" by simp
      with m show False by simp
    qed
    let ?c = "?code (symbols ! j)"
    let ?k = "m - length b0"
    have tk: "take (Suc j) symbols = take j symbols @ [symbols ! j]"
      using j by (rule take_Suc_conv_app_nth)
    have b10: "b1 = b0 @ ?c" using b0 b1 tk by simp
    have dr: "drop j symbols = symbols ! j # drop (Suc j) symbols"
      using j by (simp add: Cons_nth_drop_Suc)
    have "bits = b0 @ ?c @ ?enc (drop (Suc j) symbols)"
      using bits0 dr by simp
    moreover have k: "0 < ?k" "?k < length ?c" using m b10 by auto
    ultimately have tm: "take m bits = b0 @ take ?k ?c"
      using m by simp
    have "symbols ! j \<in> dom (symbol_prefix_map t)" using j dom by simp
    then have "symbol_prefix_map t (symbols ! j) = Some ?c" by auto
    then have c: "symbol_prefix_map t (symbols ! j) = Some (take ?k ?c @ drop ?k ?c)" by simp
    have "huffman_decompress (serialize t @ ?enc (take j symbols) @ take ?k ?c)
          = Some (Inl IndexError)"
      using k by (intro truncated_inside_codeword [OF assms(2) j c]) auto
    with tm b0 show ?thesis by simp
  qed
  have part2: "huffman_decompress (take (length b0) bits) = Some (Inr (take j symbols))"
    if "\<exists>a\<in>set symbols. \<exists>b\<in>set symbols. a \<noteq> b"
  proof -
    from that have "symbols \<noteq> []" by auto
    from for_symbols_result [OF this] that assms(2) have "is_NonLeaf t" by auto
    from truncated_between_codewords [OF assms(2) this, of j] bits0 b0 show ?thesis by simp
  qed
  have part0: "huffman_decompress (take m bits) = Some (Inl IndexError)"
    if "m + length (int_to_bit_list (last (leaf_symbols t))) < length (serialize t)"
    using truncated_inside_tree [OF that, of "?enc symbols"] bits by simp
  from part0 part1 part2 show ?thesis by blast
qed

theorem C4_truncation_witness:
  "huffman_compress [0, 0, 3, 1] =
     Inr [False, True, True, False, True, False, True, True, True, False, False,
          True, True, True, False, False, True, True, True, False]
   \<and> huffman_decompress
       (take 11 [False, True, True, False, True, False, True, True, True, False, False,
                 True, True, True, False, False, True, True, True, False])
     = Some (Inl IndexError)
   \<and> huffman_decompress
       (take 19 [False, True, True, False, True, False, True, True, True, False, False,
                 True, True, True, False, False, True, True, True, False])
     = Some (Inl IndexError)
   \<and> huffman_decompress
       (take 18 [False, True, True, False, True, False, True, True, True, False, False,
                 True, True, True, False, False, True, True, True, False])
     = Some (Inr [0, 0, 3])"
proof -
  let ?t = "NonLeaf (Some 4) (Leaf (Some 2) 0)
              (NonLeaf (Some 2) (Leaf (Some 1) 1) (Leaf (Some 1) 3))"
  let ?b0 = "[False, True, True, False, True, False, True, True, True, False, False,
              True, True, True, False, False, True, True]"
  let ?b1 = "?b0 @ [True, False]"
  have h1: "huffman_compress [0, 0, 3, 1] = Inr ?b1" by code_simp
  have h2: "for_symbols [0, 0, 3, 1] = Inr ?t" by code_simp
  have h3: "append_codes (symbol_prefix_map ?t) (take 3 [0, 0, 3, 1]) (serialize ?t) = Inr ?b0"
    by code_simp
  have h4: "append_codes (symbol_prefix_map ?t) (take (Suc 3) [0, 0, 3, 1]) (serialize ?t) = Inr ?b1"
    by code_simp
  have tree: "11 + length (int_to_bit_list (last (leaf_symbols ?t))) < length (serialize ?t)"
    by code_simp
  have two: "\<exists>a\<in>set [0, 0, 3, 1::nat]. \<exists>b\<in>set [0, 0, 3, 1]. a \<noteq> b"
    by (rule bexI [of _ 0], rule bexI [of _ 3]) simp_all
  from C4_truncation [OF h1 h2 h3 h4, of 11] tree
  have "huffman_decompress (take 11 ?b1) = Some (Inl IndexError)" by blast
  moreover from C4_truncation [OF h1 h2 h3 h4, of 19] two
  have "huffman_decompress (take 19 ?b1) = Some (Inl IndexError)"
    and "huffman_decompress (take (length ?b0) ?b1) = Some (Inr (take 3 [0, 0, 3, 1]))"
    by simp_all
  ultimately show ?thesis using h1 by simp
qed

end
